theory Spec2Isabelle
  imports Main "HOL-Library.Word"
begin

section \<open>The size-bounded LRU cache of package lru\<close>

text \<open>
  A shallow embedding of \<^verbatim>\<open>lru/lru.go\<close>. The cache owns a recency list
  (\<^verbatim>\<open>container/list\<close>, front = most recently used), a map from keys to items, and a
  running total of the sizes it holds.

  \<^item> Go's \<^verbatim>\<open>int\<close> is a 64-bit two's complement integer on the usual targets: sizes are
    \<open>64 word\<close>, \<open>+\<close> and \<open>-\<close> wrap around, and the comparisons of the source are the
    signed ones (\<open><s\<close>, \<open>\<le>s\<close>).
  \<^item> The list holds the items themselves, head = front. The field
    \<^verbatim>\<open>elementListItem\<close> of an item is its node in that list; the model finds the node
    as the entry of the list equal to the item. Every \<^verbatim>\<open>*LRUItem\<close> handed to the cache
    is taken to be non-nil and an object of its own, which the caller neither changes
    nor inserts a second time while the cache holds it.
  \<^item> \<^verbatim>\<open>elementKey\<close> is unexported and assigned by \<^verbatim>\<open>putItem\<close> before it is ever read,
    so the value an item carries there before insertion is irrelevant.
  \<^item> The callback \<^verbatim>\<open>onevict\<close> is opaque: the field \<open>onevict\<close> says whether one is
    configured, and \<open>evicted\<close> records the arguments of every call made to it, oldest
    first.
  \<^item> The producer is a function from keys to optional items (\<open>None\<close> for nil).
  \<^item> The mutex is left out: every operation runs alone under the exclusive lock, or
    only reads under the shared one, and neither callback calls back into the cache.
\<close>

subsection \<open>Data\<close>

type_synonym gint = "64 word"

record ('k, 'v) LRUItem =
  Value :: 'v
  Size :: gint
  elementKey :: 'k

record ('k, 'v) LRUCache =
  maxSize :: gint
  currentSize :: gint
  orderedItems :: "('k, 'v) LRUItem list"
  items :: "'k \<rightharpoonup> ('k, 'v) LRUItem"
  producer :: "('k \<Rightarrow> ('k, 'v) LRUItem option) option"
  onevict :: bool
  evicted :: "('k \<times> ('k, 'v) LRUItem) list"

datatype error = SizeNotPositive | KeyExists

subsection \<open>Operations\<close>

text \<open>
  Every function below is the Go function of the same name, the receiver first. One that
  changes the cache returns the new state, next to its result when it has one: the error
  of \<^verbatim>\<open>Put\<close> and \<^verbatim>\<open>Replace\<close> (\<open>None\<close> for nil), the item of \<^verbatim>\<open>Get\<close>, \<^verbatim>\<open>Evict\<close> and
  \<^verbatim>\<open>EvictIf\<close>. The loop of \<^verbatim>\<open>evictAsNeeded\<close> takes an item off the list at every turn,
  which is its termination.
\<close>

definition New ::
  "gint \<Rightarrow> ('k \<Rightarrow> ('k, 'v) LRUItem option) option \<Rightarrow> bool \<Rightarrow> error + ('k, 'v) LRUCache" where
  "New m p oe =
     (if m \<le>s 0 then Inl SizeNotPositive
      else Inr \<lparr>maxSize = m, currentSize = 0, orderedItems = [], items = Map.empty,
                producer = p, onevict = oe, evicted = []\<rparr>)"

definition evictElement :: "('k, 'v) LRUCache \<Rightarrow> ('k, 'v) LRUItem \<Rightarrow> ('k, 'v) LRUCache" where
  "evictElement c element =
     (let c1 = c\<lparr>currentSize := currentSize c - Size element,
                 items := (items c)(elementKey element := None),
                 orderedItems := remove1 element (orderedItems c)\<rparr>
      in if onevict c then c1\<lparr>evicted := evicted c @ [(elementKey element, element)]\<rparr>
         else c1)"

function evictAsNeeded :: "('k, 'v) LRUCache \<Rightarrow> ('k, 'v) LRUCache" where
  "evictAsNeeded c =
     (if maxSize c <s currentSize c \<and> orderedItems c \<noteq> []
      then evictAsNeeded (evictElement c (last (orderedItems c)))
      else c)"
  by pat_completeness auto
termination
proof (relation "measure (\<lambda>c. length (orderedItems c))")
  show "wf (measure (\<lambda>c. length (orderedItems c)))" by simp
next
  fix c :: "('k, 'v) LRUCache"
  assume "maxSize c <s currentSize c \<and> orderedItems c \<noteq> []"
  then have "last (orderedItems c) \<in> set (orderedItems c)" by simp
  then have "length (remove1 (last (orderedItems c)) (orderedItems c)) < length (orderedItems c)"
    by (simp add: length_remove1) (cases "orderedItems c", simp_all)
  then show "(evictElement c (last (orderedItems c)), c) \<in> measure (\<lambda>c. length (orderedItems c))"
    by (simp add: evictElement_def Let_def)
qed

declare evictAsNeeded.simps [simp del]

definition putItem :: "('k, 'v) LRUCache \<Rightarrow> 'k \<Rightarrow> ('k, 'v) LRUItem \<Rightarrow> ('k, 'v) LRUCache" where
  "putItem c key element =
     (let stored = element\<lparr>elementKey := key\<rparr>
      in evictAsNeeded (c\<lparr>currentSize := currentSize c + Size element,
                          orderedItems := stored # orderedItems c,
                          items := (items c)(key \<mapsto> stored)\<rparr>))"

definition produceItem ::
  "('k, 'v) LRUCache \<Rightarrow> 'k \<Rightarrow> ('k, 'v) LRUItem option \<times> ('k, 'v) LRUCache" where
  "produceItem c key =
     (case producer c of
        None \<Rightarrow> (None, c)
      | Some p \<Rightarrow>
          (case p key of
             None \<Rightarrow> (None, c)
           | Some element \<Rightarrow> (Some (element\<lparr>elementKey := key\<rparr>), putItem c key element)))"

definition Get ::
  "('k, 'v) LRUCache \<Rightarrow> 'k \<Rightarrow> ('k, 'v) LRUItem option \<times> ('k, 'v) LRUCache" where
  "Get c key =
     (case items c key of
        Some element \<Rightarrow>
          (Some element, c\<lparr>orderedItems := element # remove1 element (orderedItems c)\<rparr>)
      | None \<Rightarrow> produceItem c key)"

definition MakeRoom :: "('k, 'v) LRUCache \<Rightarrow> gint \<Rightarrow> ('k, 'v) LRUCache" where
  "MakeRoom c sz =
     (let c1 = c\<lparr>maxSize := maxSize c - sz\<rparr>;
          c2 = evictAsNeeded c1
      in c2\<lparr>maxSize := maxSize c2 + sz\<rparr>)"

definition Put ::
  "('k, 'v) LRUCache \<Rightarrow> 'k \<Rightarrow> ('k, 'v) LRUItem \<Rightarrow> error option \<times> ('k, 'v) LRUCache" where
  "Put c key element =
     (case items c key of
        Some _ \<Rightarrow> (Some KeyExists, c)
      | None \<Rightarrow> (None, putItem c key element))"

definition Replace ::
  "('k, 'v) LRUCache \<Rightarrow> 'k \<Rightarrow> ('k, 'v) LRUItem \<Rightarrow> error option \<times> ('k, 'v) LRUCache" where
  "Replace c key element =
     (let c1 = (case items c key of Some item \<Rightarrow> evictElement c item | None \<Rightarrow> c)
      in (None, putItem c1 key element))"

definition Evict ::
  "('k, 'v) LRUCache \<Rightarrow> 'k \<Rightarrow> ('k, 'v) LRUItem option \<times> ('k, 'v) LRUCache" where
  "Evict c key =
     (case items c key of
        Some item \<Rightarrow> (Some item, evictElement c item)
      | None \<Rightarrow> (None, c))"

text \<open>
  \<^verbatim>\<open>EvictIf\<close> ranges over the map. Go leaves the order of that iteration open, so the
  model takes it as the argument \<open>order\<close>, a list of the keys of the map at the time of
  the call. An entry deleted before the iteration reaches it is not visited, hence the
  lookup at every step.
\<close>

fun evictIfLoop ::
  "('k, 'v) LRUCache \<Rightarrow> ('k \<Rightarrow> bool) \<Rightarrow> 'k list \<Rightarrow> ('k, 'v) LRUCache" where
  "evictIfLoop c predicate [] = c"
| "evictIfLoop c predicate (key # keys) =
     (case items c key of
        None \<Rightarrow> evictIfLoop c predicate keys
      | Some v \<Rightarrow>
          (if predicate key then evictIfLoop (evictElement c v) predicate keys
           else evictIfLoop c predicate keys))"

definition EvictIf ::
  "('k, 'v) LRUCache \<Rightarrow> ('k \<Rightarrow> bool) \<Rightarrow> 'k list
     \<Rightarrow> ('k, 'v) LRUItem option \<times> ('k, 'v) LRUCache" where
  "EvictIf c predicate order = (None, evictIfLoop c predicate order)"

definition EmptySpace :: "('k, 'v) LRUCache \<Rightarrow> gint" where
  "EmptySpace c = maxSize c - currentSize c"

definition MaxSize :: "('k, 'v) LRUCache \<Rightarrow> gint" where
  "MaxSize c = maxSize c"

definition Has :: "('k, 'v) LRUCache \<Rightarrow> 'k \<Rightarrow> bool" where
  "Has c key = (items c key \<noteq> None)"

subsection \<open>Sequences of public operations\<close>

datatype ('k, 'v) operation =
    OpPut 'k "('k, 'v) LRUItem"
  | OpGet 'k
  | OpReplace 'k "('k, 'v) LRUItem"
  | OpEvict 'k
  | OpEvictIf "'k \<Rightarrow> bool" "'k list"
  | OpMakeRoom gint

fun perform :: "('k, 'v) LRUCache \<Rightarrow> ('k, 'v) operation \<Rightarrow> ('k, 'v) LRUCache" where
  "perform c (OpPut key element) = snd (Put c key element)"
| "perform c (OpGet key) = snd (Get c key)"
| "perform c (OpReplace key element) = snd (Replace c key element)"
| "perform c (OpEvict key) = snd (Evict c key)"
| "perform c (OpEvictIf predicate order) = snd (EvictIf c predicate order)"
| "perform c (OpMakeRoom sz) = MakeRoom c sz"

fun run :: "('k, 'v) LRUCache \<Rightarrow> ('k, 'v) operation list \<Rightarrow> ('k, 'v) LRUCache" where
  "run c [] = c"
| "run c (x # xs) = run (perform c x) xs"

subsection \<open>Invariants\<close>

text \<open>The pair a stored item stands for: the key it carries, and the item.\<close>

definition entry :: "('k, 'v) LRUItem \<Rightarrow> 'k \<times> ('k, 'v) LRUItem" where
  "entry e = (elementKey e, e)"

text \<open>
  The index and the recency list hold the same items: the keys of the list are
  distinct, and the index maps exactly the key of every listed item to that item.
\<close>

definition consistent :: "('k, 'v) LRUCache \<Rightarrow> bool" where
  "consistent c \<longleftrightarrow>
     distinct (map elementKey (orderedItems c)) \<and>
     items c = map_of (map entry (orderedItems c))"


definition accounted :: "('k, 'v) LRUCache \<Rightarrow> bool" where
  "accounted c \<longleftrightarrow> currentSize c = sum_list (map Size (orderedItems c))"

text \<open>
  The data model of the specification: sizes are non-negative, and the occupied size is
  their sum as an integer (so the sum has not wrapped around).
\<close>

definition sizesNonNegative :: "('k, 'v) LRUCache \<Rightarrow> bool" where
  "sizesNonNegative c \<longleftrightarrow> list_all (\<lambda>e. 0 \<le>s Size e) (orderedItems c)"

definition exactTotal :: "('k, 'v) LRUCache \<Rightarrow> bool" where
  "exactTotal c \<longleftrightarrow>
     sint (currentSize c) = sum_list (map (\<lambda>e. sint (Size e)) (orderedItems c))"

definition withinCapacity :: "('k, 'v) LRUCache \<Rightarrow> bool" where
  "withinCapacity c \<longleftrightarrow> currentSize c \<le>s maxSize c \<or> orderedItems c = []"

definition wellFormed :: "('k, 'v) LRUCache \<Rightarrow> bool" where
  "wellFormed c \<longleftrightarrow>
     consistent c \<and> exactTotal c \<and> sizesNonNegative c \<and> 0 <s maxSize c \<and> withinCapacity c"

text \<open>
  The state in which the eviction loop leaves \<open>c\<close> when it stops with the \<open>n\<close> most
  recently used items: the others, from the back of the list, have been evicted in turn.
\<close>

definition evictN :: "('k, 'v) LRUCache \<Rightarrow> nat \<Rightarrow> ('k, 'v) LRUCache" where
  "evictN c n =
     c\<lparr>currentSize := currentSize c - sum_list (map Size (drop n (orderedItems c))),
       items := (\<lambda>k. if k \<in> elementKey ` set (drop n (orderedItems c)) then None else items c k),
       orderedItems := take n (orderedItems c),
       evicted := evicted c @ (if onevict c then map entry (rev (drop n (orderedItems c))) else [])\<rparr>"

subsection \<open>The scenarios of the test suite\<close>

definition newItem :: "string \<Rightarrow> gint \<Rightarrow> (string, string) LRUItem" where
  "newItem v s = \<lparr>Value = v, Size = s, elementKey = []\<rparr>"

definition emptyCache :: "gint \<Rightarrow> (string, string) LRUCache" where
  "emptyCache m = \<lparr>maxSize = m, currentSize = 0, orderedItems = [], items = Map.empty,
     producer = None, onevict = True, evicted = []\<rparr>"

text \<open>\<^verbatim>\<open>TestPut_ItemExists\<close>: capacity 100, after the first \<^verbatim>\<open>Put\<close>.\<close>

definition once :: "(string, string) LRUCache" where
  "once = snd (Put (emptyCache 100) ''test1'' (newItem ''test1'' 50))"


text \<open>\<^verbatim>\<open>TestEvictIf\<close>: capacity 100, three items of size 10.\<close>

definition thrice :: "(string, string) LRUCache" where
  "thrice = run (emptyCache 100)
     [OpPut ''test1'' (newItem ''test'' 10), OpPut ''test2'' (newItem ''test'' 10),
      OpPut ''test3'' (newItem ''test'' 10)]"

text \<open>\<^verbatim>\<open>TestMakeRoom\<close>, before the call of \<^verbatim>\<open>MakeRoom\<close>: capacity 160, two items of size 50.\<close>

definition twice :: "(string, string) LRUCache" where
  "twice = run (emptyCache 160)
     [OpPut ''test1'' (newItem ''test1'' 50), OpPut ''test2'' (newItem ''test2'' 50)]"

text \<open>
  Capacity 128 with one item of size 50, and the same cache with a producer that makes
  an item of size 200 for every key.
\<close>

definition single :: "(string, string) LRUCache" where
  "single = snd (Put (emptyCache 128) ''test1'' (newItem ''test1'' 50))"

definition feeding :: "(string, string) LRUCache" where
  "feeding = single\<lparr>producer := Some (\<lambda>k. Some (newItem k 200))\<rparr>"

text \<open>
  \<^verbatim>\<open>TestBasicTest_PutAndEviction\<close>, its first steps: capacity 128, \<^verbatim>\<open>test1\<close> and
  \<^verbatim>\<open>test2\<close> of size 50, then \<^verbatim>\<open>Get(test1)\<close>.
\<close>

definition pair :: "(string, string) LRUCache" where
  "pair = run (emptyCache 128)
     [OpPut ''test1'' (newItem ''test1'' 50), OpPut ''test2'' (newItem ''test2'' 50)]"

definition promoted :: "(string, string) LRUCache" where
  "promoted = snd (Get pair ''test1'')"

text \<open>\<^verbatim>\<open>TestReplace_ItemExists\<close>: capacity 100, \<^verbatim>\<open>test1\<close> replaced.\<close>

definition replaced :: "(string, string) LRUCache" where
  "replaced = snd (Replace once ''test1'' (newItem ''test2'' 50))"

section \<open>Auxiliary facts\<close>

subsection \<open>The eviction loop\<close>

lemma remove1_last: "distinct xs \<Longrightarrow> xs \<noteq> [] \<Longrightarrow> remove1 (last xs) xs = butlast xs"
proof -
  assume d: "distinct xs" and ne: "xs \<noteq> []"
  then have xs: "xs = butlast xs @ [last xs]" by simp
  with d have "last xs \<notin> set (butlast xs)"
    by (metis distinct_append disjoint_iff list.set_intros(1))
  then have "remove1 (last xs) (butlast xs @ [last xs]) = butlast xs"
    by (simp add: remove1_append)
  with xs show ?thesis by simp
qed

lemma evictElement_sel [simp]:
  "maxSize (evictElement c e) = maxSize c"
  "currentSize (evictElement c e) = currentSize c - Size e"
  "orderedItems (evictElement c e) = remove1 e (orderedItems c)"
  "items (evictElement c e) = (items c)(elementKey e := None)"
  "producer (evictElement c e) = producer c"
  "onevict (evictElement c e) = onevict c"
  "evicted (evictElement c e) = evicted c @ (if onevict c then [entry e] else [])"
  by (simp_all add: evictElement_def Let_def entry_def)

lemma evictAsNeeded_step:
  "maxSize c <s currentSize c \<Longrightarrow> orderedItems c \<noteq> [] \<Longrightarrow>
   evictAsNeeded c = evictAsNeeded (evictElement c (last (orderedItems c)))"
  by (subst evictAsNeeded.simps) simp

lemma evictAsNeeded_stop:
  "\<not> (maxSize c <s currentSize c \<and> orderedItems c \<noteq> []) \<Longrightarrow> evictAsNeeded c = c"
  by (subst evictAsNeeded.simps) auto

lemma evictN_length: "evictN c (length (orderedItems c)) = c"
  by (simp add: evictN_def)

lemma evictN_last:
  assumes d: "distinct (orderedItems c)" and ne: "orderedItems c \<noteq> []"
    and n: "n \<le> length (butlast (orderedItems c))"
  shows "evictN (evictElement c (last (orderedItems c))) n = evictN c n"
proof -
  let ?L = "orderedItems c"
  have "length (butlast ?L) < length ?L" using ne by (cases ?L rule: rev_cases) auto
  with n have n': "n < length ?L" by simp
  have r: "remove1 (last ?L) ?L = butlast ?L" using d ne by (rule remove1_last)
  have dn: "drop n ?L \<noteq> []" using n' by simp
  have dr: "drop n ?L = drop n (butlast ?L) @ [last ?L]"
    using dn n' by (metis append_butlast_last_id drop_butlast last_drop)
  have tk: "take n (butlast ?L) = take n ?L" using n' by (simp add: take_butlast)
  show ?thesis
    unfolding evictN_def
    by (rule LRUCache.equality) (auto simp: r dr tk fun_eq_iff)
qed

lemma evictAsNeeded_least:
  "distinct (orderedItems c) \<Longrightarrow>
   \<exists>n\<le>length (orderedItems c). evictAsNeeded c = evictN c n \<and>
     (\<forall>m. n < m \<and> m \<le> length (orderedItems c) \<longrightarrow> maxSize c <s currentSize (evictN c m))"
proof (induction c rule: evictAsNeeded.induct)
  case (1 c)
  show ?case
  proof (cases "maxSize c <s currentSize c \<and> orderedItems c \<noteq> []")
    case True
    let ?c1 = "evictElement c (last (orderedItems c))"
    have r: "orderedItems ?c1 = butlast (orderedItems c)"
      using True "1.prems" by (simp add: remove1_last)
    then have "distinct (orderedItems ?c1)" using "1.prems" by (simp add: distinct_butlast)
    from "1.IH" [OF True this] r obtain n where
      n: "n \<le> length (butlast (orderedItems c))" and e: "evictAsNeeded ?c1 = evictN ?c1 n"
      and l: "\<forall>m. n < m \<and> m \<le> length (butlast (orderedItems c))
        \<longrightarrow> maxSize ?c1 <s currentSize (evictN ?c1 m)"
      by auto
    have s: "evictN ?c1 m = evictN c m" if "m \<le> length (butlast (orderedItems c))" for m
      using "1.prems" True that by (simp add: evictN_last)
    from e True n have "evictAsNeeded c = evictN c n" by (simp add: evictAsNeeded_step s)
    moreover have "n \<le> length (orderedItems c)" using n by simp
    moreover have "maxSize c <s currentSize (evictN c m)"
      if m: "n < m \<and> m \<le> length (orderedItems c)" for m
    proof (cases "m = length (orderedItems c)")
      case True
      with \<open>maxSize c <s currentSize c \<and> orderedItems c \<noteq> []\<close> show ?thesis
        by (simp add: evictN_length)
    next
      case False
      with m have b: "m \<le> length (butlast (orderedItems c))" by (simp del: One_nat_def) arith
      with m l have "maxSize ?c1 <s currentSize (evictN ?c1 m)" by blast
      with b show ?thesis by (simp only: s evictElement_sel)
    qed
    ultimately show ?thesis by blast
  next
    case False
    then have "evictAsNeeded c = evictN c (length (orderedItems c))"
      by (simp add: evictAsNeeded_stop evictN_length)
    then show ?thesis by (intro exI [of _ "length (orderedItems c)"]) auto
  qed
qed

lemma evictAsNeeded_evictN:
  "distinct (orderedItems c) \<Longrightarrow> \<exists>n\<le>length (orderedItems c). evictAsNeeded c = evictN c n"
  using evictAsNeeded_least [of c] by blast

lemma evictAsNeeded_exit:
  "\<not> maxSize (evictAsNeeded c) <s currentSize (evictAsNeeded c) \<or> orderedItems (evictAsNeeded c) = []"
proof (induction c rule: evictAsNeeded.induct)
  case (1 c)
  show ?case
  proof (cases "maxSize c <s currentSize c \<and> orderedItems c \<noteq> []")
    case True
    with "1.IH" show ?thesis by (simp add: evictAsNeeded_step)
  next
    case False
    then have "evictAsNeeded c = c" by (rule evictAsNeeded_stop)
    with False show ?thesis by auto
  qed
qed

subsection \<open>Preservation of the invariants\<close>

lemma distinct_map_remove1: "distinct (map f xs) \<Longrightarrow> distinct (map f (remove1 x xs))"
  by (induction xs) (auto dest!: set_remove1_subset [THEN subsetD])

lemma entry_sel [simp]: "fst (entry e) = elementKey e" "snd (entry e) = e"
  by (simp_all add: entry_def)

lemma map_of_entry_None: "k \<notin> elementKey ` set xs \<Longrightarrow> map_of (map entry xs) k = None"
  by (induction xs) (auto simp: entry_def)

lemma map_of_entry_remove1:
  "distinct (map elementKey xs) \<Longrightarrow> e \<in> set xs \<Longrightarrow>
   map_of (map entry (remove1 e xs)) = (map_of (map entry xs))(elementKey e := None)"
proof (induction xs)
  case Nil
  then show ?case by simp
next
  case (Cons x xs)
  show ?case
  proof (cases "x = e")
    case True
    from Cons.prems have "elementKey x \<notin> elementKey ` set xs" by simp
    then have n: "map_of (map entry xs) (elementKey x) = None" by (rule map_of_entry_None)
    have "map_of (map entry (remove1 e (x # xs))) = map_of (map entry xs)"
      using True by simp
    also have "\<dots> = (map_of (map entry xs))(elementKey x := None)"
      using n by (simp add: fun_upd_idem)
    also have "\<dots> = (map_of (map entry (x # xs)))(elementKey e := None)"
      using True by simp
    finally show ?thesis .
  next
    case False
    with Cons.prems have e: "e \<in> set xs" and d: "distinct (map elementKey xs)" by auto
    from Cons.prems e have "elementKey x \<noteq> elementKey e" by auto
    with False Cons.IH [OF d e] show ?thesis by (auto simp: fun_eq_iff)
  qed
qed

lemma consistent_lookup:
  "consistent c \<Longrightarrow> items c k = Some e \<Longrightarrow> e \<in> set (orderedItems c) \<and> elementKey e = k"
  by (auto simp: consistent_def entry_def dest!: map_of_SomeD)


lemma consistent_absent:
  "consistent c \<Longrightarrow> items c k = None \<longleftrightarrow> k \<notin> elementKey ` set (orderedItems c)"
  by (auto simp: consistent_def map_of_eq_None_iff entry_def image_iff)

lemma consistent_dom: "consistent c \<Longrightarrow> dom (items c) = elementKey ` set (orderedItems c)"
  using consistent_absent [of c] by (auto simp: dom_def)

lemma consistent_distinct: "consistent c \<Longrightarrow> distinct (orderedItems c)"
  by (auto simp: consistent_def distinct_map)

lemma consistent_evictElement:
  "consistent c \<Longrightarrow> e \<in> set (orderedItems c) \<Longrightarrow> consistent (evictElement c e)"
  by (simp add: consistent_def distinct_map_remove1 map_of_entry_remove1)

lemma accounted_evictElement:
  "accounted c \<Longrightarrow> e \<in> set (orderedItems c) \<Longrightarrow> accounted (evictElement c e)"
  by (simp add: accounted_def sum_list_map_remove1)







subsection \<open>Evaluating the scenarios\<close>

lemmas scenario_defs =
  Put_def putItem_def Get_def produceItem_def Replace_def Evict_def EvictIf_def MakeRoom_def
  evictAsNeeded.simps evictElement_def Let_def newItem_def emptyCache_def
  EmptySpace_def MaxSize_def Has_def

lemma New_emptyCache: "0 <s m \<Longrightarrow> New m None True = Inr (emptyCache m)"
  by (simp add: New_def emptyCache_def signed.not_le)

section \<open>The claims\<close>

subsection \<open>Construction\<close>

text \<open>
  Claim C9. \<^verbatim>\<open>New\<close> fails with the configuration error exactly when \<open>maxSize \<le> 0\<close>;
  a cache it returns is empty, with \<^verbatim>\<open>EmptySpace\<close> and \<^verbatim>\<open>MaxSize\<close> equal to the capacity
  asked for; \<^verbatim>\<open>New(128)\<close> succeeds with \<^verbatim>\<open>EmptySpace() == 128\<close>.
\<close>

theorem New_configuration:
  "(New m p oe = Inl SizeNotPositive \<longleftrightarrow> m \<le>s 0) \<and>
   (isl (New m p oe) \<longleftrightarrow> m \<le>s 0) \<and>
   (\<forall>c. New m p oe = Inr c \<longrightarrow>
      0 <s m \<and> orderedItems c = [] \<and> items c = Map.empty \<and> currentSize c = 0 \<and>
      EmptySpace c = m \<and> MaxSize c = m) \<and>
   (\<exists>c. New 128 p oe = Inr c \<and> EmptySpace c = 128)"
  by (auto simp: New_def EmptySpace_def MaxSize_def word_sle_eq word_sless_alt)

theorem New_configuration_witness:
  "New 128 None True = Inr (emptyCache 128) \<and> EmptySpace (emptyCache 128) = 128 \<and>
   orderedItems (emptyCache 128) = [] \<and> isl (New 0 None True :: error + (string, string) LRUCache)
   \<and> isl (New (- 5) None True :: error + (string, string) LRUCache)"
proof -
  have n: "New 128 None True = Inr (emptyCache 128)"
    by (simp add: New_def emptyCache_def word_sle_eq)
  from New_configuration [of 128 "None :: (string \<Rightarrow> (string, string) LRUItem option) option" True]
  have "EmptySpace (emptyCache 128) = 128 \<and> orderedItems (emptyCache 128) = []"
    using n by simp
  moreover from New_configuration [of 0 "None :: (string \<Rightarrow> (string, string) LRUItem option) option" True]
  have "isl (New 0 None True :: error + (string, string) LRUCache)" by simp
  moreover from New_configuration [of "- 5" "None :: (string \<Rightarrow> (string, string) LRUItem option) option" True]
  have "isl (New (- 5) None True :: error + (string, string) LRUCache)" by (simp add: word_sle_eq)
  ultimately show ?thesis using n by simp
qed

subsection \<open>Sizes are taken as given\<close>

text \<open>
  Claim C10. Sizes are not validated: on the empty cache of capacity 128, \<^verbatim>\<open>Put\<close> of an
  item of size \<open>-10\<close> under a key that is not present returns no error and keeps the item;
  afterwards the occupied size is \<open>-10\<close>, negative, and \<^verbatim>\<open>EmptySpace\<close> is 138, above
  \<^verbatim>\<open>MaxSize\<close>, which is 128.
\<close>

theorem negative_size_unchecked:
  "New 128 None True = Inr (emptyCache 128) \<and>
   Size (newItem ''v'' (- 10)) <s 0 \<and>
   \<not> Has (emptyCache 128) ''k'' \<and>
   fst (Put (emptyCache 128) ''k'' (newItem ''v'' (- 10))) = None \<and>
   Has (snd (Put (emptyCache 128) ''k'' (newItem ''v'' (- 10)))) ''k'' \<and>
   currentSize (snd (Put (emptyCache 128) ''k'' (newItem ''v'' (- 10)))) = - 10 \<and>
   currentSize (snd (Put (emptyCache 128) ''k'' (newItem ''v'' (- 10)))) <s 0 \<and>
   EmptySpace (snd (Put (emptyCache 128) ''k'' (newItem ''v'' (- 10)))) = 138 \<and>
   MaxSize (snd (Put (emptyCache 128) ''k'' (newItem ''v'' (- 10)))) = 128 \<and>
   MaxSize (snd (Put (emptyCache 128) ''k'' (newItem ''v'' (- 10))))
     <s EmptySpace (snd (Put (emptyCache 128) ''k'' (newItem ''v'' (- 10))))"
  by (simp add: New_def scenario_defs word_sle_eq word_sless_alt)

subsection \<open>Duplicate keys\<close>

text \<open>
  Claim C5. \<^verbatim>\<open>Put\<close> returns the duplicate-key error exactly when the key is present, and
  then the whole state is the one before the call; otherwise it returns no error, and the
  state is the one the eviction loop leaves after the item has been added to the total,
  pushed to the front of the list and stored in the index.
\<close>

theorem Put_duplicate_key:
  "(fst (Put c key element) = Some KeyExists \<longleftrightarrow> Has c key) \<and>
   (fst (Put c key element) = None \<longleftrightarrow> \<not> Has c key) \<and>
   (Has c key \<longrightarrow> snd (Put c key element) = c) \<and>
   (\<not> Has c key \<longrightarrow>
      snd (Put c key element) =
        evictAsNeeded (c\<lparr>currentSize := currentSize c + Size element,
                         orderedItems := element\<lparr>elementKey := key\<rparr> # orderedItems c,
                         items := (items c)(key \<mapsto> element\<lparr>elementKey := key\<rparr>)\<rparr>))"
  by (auto simp: Put_def Has_def putItem_def Let_def split: option.splits)

theorem Put_duplicate_key_witness:
  "Has once ''test1'' \<and>
   fst (Put once ''test1'' (newItem ''test2'' 50)) = Some KeyExists \<and>
   snd (Put once ''test1'' (newItem ''test2'' 50)) = once \<and>
   map_option Value (fst (Get (snd (Put once ''test1'' (newItem ''test2'' 50))) ''test1''))
     = Some ''test1'' \<and>
   \<not> Has (emptyCache 100) ''test1'' \<and>
   fst (Put (emptyCache 100) ''test1'' (newItem ''test1'' 50)) = None \<and>
   map elementKey (orderedItems once) = [''test1''] \<and> currentSize once = 50"
proof -
  have h: "Has once ''test1''" and e: "\<not> Has (emptyCache 100) ''test1''"
    by (simp_all add: once_def scenario_defs)
  from Put_duplicate_key [of once "''test1''" "newItem ''test2'' 50"] h
  have 1: "fst (Put once ''test1'' (newItem ''test2'' 50)) = Some KeyExists"
    and 2: "snd (Put once ''test1'' (newItem ''test2'' 50)) = once" by simp_all
  have 3: "map_option Value (fst (Get once ''test1'')) = Some ''test1''"
    by (simp add: once_def scenario_defs)
  from Put_duplicate_key [of "emptyCache 100" "''test1''" "newItem ''test1'' 50"] e
  have 4: "fst (Put (emptyCache 100) ''test1'' (newItem ''test1'' 50)) = None" by simp
  have 5: "map elementKey (orderedItems once) = [''test1''] \<and> currentSize once = 50"
    by (simp add: once_def scenario_defs)
  from h 1 2 3 4 5 e show ?thesis by simp
qed

subsection \<open>Size accounting\<close>




lemma consistent_maxSize [simp]: "consistent (c\<lparr>maxSize := m\<rparr>) = consistent c"
  by (simp add: consistent_def)

lemma accounted_maxSize [simp]: "accounted (c\<lparr>maxSize := m\<rparr>) = accounted c"
  by (simp add: accounted_def)






subsection \<open>Eviction by predicate\<close>

lemma remove1_filter_key:
  "distinct (map f xs) \<Longrightarrow> x \<in> set xs \<Longrightarrow> remove1 x xs = filter (\<lambda>y. f y \<noteq> f x) xs"
proof (induction xs)
  case Nil
  then show ?case by simp
next
  case (Cons a xs)
  show ?case
  proof (cases "a = x")
    case True
    from Cons.prems have "f a \<notin> f ` set xs" by simp
    then have "\<forall>y \<in> set xs. f y \<noteq> f a" by (metis image_eqI)
    then have "filter (\<lambda>y. f y \<noteq> f a) xs = xs" by (simp add: filter_id_conv)
    with True show ?thesis by simp
  next
    case False
    with Cons.prems have x: "x \<in> set xs" and d: "distinct (map f xs)" by auto
    from Cons.prems x have "f a \<noteq> f x" by force
    with False Cons.IH [OF d x] show ?thesis by simp
  qed
qed

lemma evictIfLoop_result:
  "consistent c \<Longrightarrow> distinct order \<Longrightarrow>
   items (evictIfLoop c predicate order) =
     (\<lambda>k. if k \<in> set order \<and> predicate k then None else items c k) \<and>
   orderedItems (evictIfLoop c predicate order) =
     filter (\<lambda>e. \<not> (elementKey e \<in> set order \<and> predicate (elementKey e))) (orderedItems c) \<and>
   evicted (evictIfLoop c predicate order) =
     evicted c @ (if onevict c
       then map (\<lambda>k. (k, the (items c k))) (filter (\<lambda>k. predicate k \<and> items c k \<noteq> None) order)
       else []) \<and>
   onevict (evictIfLoop c predicate order) = onevict c \<and>
   maxSize (evictIfLoop c predicate order) = maxSize c"
proof (induction order arbitrary: c)
  case Nil
  then show ?case by simp
next
  case (Cons key keys)
  from Cons.prems have dk: "distinct keys" and nk: "key \<notin> set keys" by simp_all
  show ?case
  proof (cases "items c key")
    case None
    with Cons.prems have "key \<notin> elementKey ` set (orderedItems c)"
      by (simp add: consistent_absent)
    then have f: "filter (\<lambda>e. \<not> (elementKey e \<in> set (key # keys) \<and> predicate (elementKey e)))
        (orderedItems c)
      = filter (\<lambda>e. \<not> (elementKey e \<in> set keys \<and> predicate (elementKey e))) (orderedItems c)"
      by (intro filter_cong refl) auto
    from None have i: "(\<lambda>k. if k \<in> set (key # keys) \<and> predicate k then None else items c k)
      = (\<lambda>k. if k \<in> set keys \<and> predicate k then None else items c k)"
      by (auto simp: fun_eq_iff)
    from Cons.IH [OF Cons.prems(1) dk] None show ?thesis
      by (simp only: evictIfLoop.simps option.case f i) simp
  next
    case (Some v)
    with Cons.prems have v: "v \<in> set (orderedItems c)" and kv: "elementKey v = key"
      by (simp_all add: consistent_lookup)
    show ?thesis
    proof (cases "predicate key")
      case True
      let ?c1 = "evictElement c v"
      from Cons.prems v have c1: "consistent ?c1" by (simp add: consistent_evictElement)
      from Cons.prems have d: "distinct (map elementKey (orderedItems c))"
        by (simp add: consistent_def)
      have r: "orderedItems ?c1 = filter (\<lambda>e. elementKey e \<noteq> key) (orderedItems c)"
        using remove1_filter_key [OF d v] kv by simp
      have i: "(\<lambda>k. if k \<in> set keys \<and> predicate k then None else items ?c1 k)
        = (\<lambda>k. if k \<in> set (key # keys) \<and> predicate k then None else items c k)"
        using True kv by (auto simp: fun_eq_iff)
      have f: "filter (\<lambda>e. \<not> (elementKey e \<in> set keys \<and> predicate (elementKey e)))
          (orderedItems ?c1)
        = filter (\<lambda>e. \<not> (elementKey e \<in> set (key # keys) \<and> predicate (elementKey e)))
          (orderedItems c)"
        unfolding r filter_filter using True by (intro filter_cong refl) auto
      have m: "map (\<lambda>k. (k, the (items ?c1 k)))
            (filter (\<lambda>k. predicate k \<and> items ?c1 k \<noteq> None) keys)
        = map (\<lambda>k. (k, the (items c k))) (filter (\<lambda>k. predicate k \<and> items c k \<noteq> None) keys)"
        using nk kv by (intro arg_cong2 [where f = map] filter_cong ext refl map_cong) auto
      have e: "evicted ?c1 @ (if onevict ?c1 then map (\<lambda>k. (k, the (items ?c1 k)))
            (filter (\<lambda>k. predicate k \<and> items ?c1 k \<noteq> None) keys) else [])
        = evicted c @ (if onevict c then map (\<lambda>k. (k, the (items c k)))
            (filter (\<lambda>k. predicate k \<and> items c k \<noteq> None) (key # keys)) else [])"
        unfolding m using True Some kv by (simp add: entry_def)
      from Cons.IH [OF c1 dk] Some True show ?thesis
        by (simp only: evictIfLoop.simps option.case if_True i f e) simp
    next
      case False
      have i: "(\<lambda>k. if k \<in> set (key # keys) \<and> predicate k then None else items c k)
        = (\<lambda>k. if k \<in> set keys \<and> predicate k then None else items c k)"
        using False by (auto simp: fun_eq_iff)
      have f: "filter (\<lambda>e. \<not> (elementKey e \<in> set (key # keys) \<and> predicate (elementKey e)))
          (orderedItems c)
        = filter (\<lambda>e. \<not> (elementKey e \<in> set keys \<and> predicate (elementKey e))) (orderedItems c)"
        using False by (intro filter_cong refl) auto
      from Cons.IH [OF Cons.prems(1) dk] Some False show ?thesis
        by (simp only: evictIfLoop.simps option.case if_False f i) simp
    qed
  qed
qed

text \<open>
  Claim C8. \<^verbatim>\<open>EvictIf\<close>, whatever the order in which the iteration visits the keys of the
  index, removes from the index and from the recency list exactly the keys that were
  present and satisfy the predicate, keeps every other entry as it was and in its place,
  calls \<^verbatim>\<open>onevict\<close> once for each removed entry, in the order of the iteration, and
  returns nil.
\<close>

theorem EvictIf_exact:
  assumes c: "consistent c" and d: "distinct order" and o: "set order = dom (items c)"
  shows "fst (EvictIf c predicate order) = None \<and>
    items (snd (EvictIf c predicate order)) = (\<lambda>k. if predicate k then None else items c k) \<and>
    dom (items (snd (EvictIf c predicate order))) = {k \<in> dom (items c). \<not> predicate k} \<and>
    orderedItems (snd (EvictIf c predicate order)) =
      filter (\<lambda>e. \<not> predicate (elementKey e)) (orderedItems c) \<and>
    evicted (snd (EvictIf c predicate order)) =
      evicted c @ (if onevict c then map (\<lambda>k. (k, the (items c k))) (filter predicate order)
                   else [])"
proof -
  have i: "(\<lambda>k. if k \<in> set order \<and> predicate k then None else items c k)
    = (\<lambda>k. if predicate k then None else items c k)"
    using o by (auto simp: fun_eq_iff)
  from c o have "\<forall>e \<in> set (orderedItems c). elementKey e \<in> set order"
    by (simp add: consistent_dom)
  then have f: "filter (\<lambda>e. \<not> (elementKey e \<in> set order \<and> predicate (elementKey e)))
      (orderedItems c) = filter (\<lambda>e. \<not> predicate (elementKey e)) (orderedItems c)"
    by (intro filter_cong refl) auto
  have m: "filter (\<lambda>k. predicate k \<and> items c k \<noteq> None) order = filter predicate order"
    using o by (intro filter_cong refl) auto
  have "dom (\<lambda>k. if predicate k then None else items c k) = {k \<in> dom (items c). \<not> predicate k}"
    by (auto simp: dom_def)
  with evictIfLoop_result [OF c d, of predicate, unfolded i f m] show ?thesis
    by (simp add: EvictIf_def)
qed

theorem EvictIf_exact_witness:
  "consistent thrice \<and> distinct [''test3'', ''test1'', ''test2''] \<and>
   set [''test3'', ''test1'', ''test2''] = dom (items thrice) \<and>
   fst (EvictIf thrice (\<lambda>k. k = ''test2'') [''test3'', ''test1'', ''test2'']) = None \<and>
   Has (snd (EvictIf thrice (\<lambda>k. k = ''test2'') [''test3'', ''test1'', ''test2''])) ''test1'' \<and>
   \<not> Has (snd (EvictIf thrice (\<lambda>k. k = ''test2'') [''test3'', ''test1'', ''test2''])) ''test2'' \<and>
   Has (snd (EvictIf thrice (\<lambda>k. k = ''test2'') [''test3'', ''test1'', ''test2''])) ''test3'' \<and>
   map elementKey
     (orderedItems (snd (EvictIf thrice (\<lambda>k. k = ''test2'') [''test3'', ''test1'', ''test2''])))
     = [''test3'', ''test1''] \<and>
   map fst (evicted (snd (EvictIf thrice (\<lambda>k. k = ''test2'') [''test3'', ''test1'', ''test2''])))
     = [''test2'']"
proof -
  have c: "consistent thrice"
    by (simp add: thrice_def consistent_def entry_def scenario_defs)
  have d: "distinct [''test3'', ''test1'', ''test2'']" by simp
  have o: "set [''test3'', ''test1'', ''test2''] = dom (items thrice)"
    by (auto simp: thrice_def scenario_defs)
  have s: "map elementKey (orderedItems thrice) = [''test3'', ''test2'', ''test1'']"
    "onevict thrice" "evicted thrice = []"
    "Has thrice ''test1''" "Has thrice ''test2''" "Has thrice ''test3''"
    by (simp_all add: thrice_def scenario_defs)
  from EvictIf_exact [OF c d o, of "\<lambda>k. k = ''test2''"] c o s show ?thesis
    by (simp add: Has_def) (simp add: thrice_def scenario_defs)
qed

subsection \<open>Signed arithmetic without wrap-around\<close>

lemma sint_sub_exact:
  fixes a b :: "'a::len word"
  assumes "0 \<le> sint a" and "0 \<le> sint b"
  shows "sint (a - b) = sint a - sint b"
proof -
  have "sint a < 2 ^ (LENGTH('a) - 1)" "sint b < 2 ^ (LENGTH('a) - 1)"
    by (rule sint_lt)+
  with assms have "- (2 ^ (LENGTH('a) - 1)) \<le> sint a - sint b"
    "sint a - sint b < 2 ^ (LENGTH('a) - 1)" by auto
  then have "signed_take_bit (LENGTH('a) - 1) (sint a - sint b) = sint a - sint b"
    by (simp add: signed_take_bit_int_eq_self)
  then show ?thesis by (simp add: sint_word_ariths)
qed

subsection \<open>The data model of the specification\<close>

lemma sizesNonNegative_member:
  "sizesNonNegative c \<Longrightarrow> e \<in> set (orderedItems c) \<Longrightarrow> 0 \<le> sint (Size e)"
  by (simp add: sizesNonNegative_def list_all_iff word_sle_eq)

lemma exactTotal_nonneg:
  assumes "exactTotal c" and n: "sizesNonNegative c"
  shows "0 \<le> sint (currentSize c)"
proof -
  have "0 \<le> sum_list (map (\<lambda>e. sint (Size e)) (orderedItems c))"
    using n by (intro sum_list_nonneg) (auto simp: sizesNonNegative_member)
  with assms(1) show ?thesis by (simp add: exactTotal_def)
qed

lemma exactTotal_member_le:
  assumes "exactTotal c" and "sizesNonNegative c" and e: "e \<in> set (orderedItems c)"
  shows "sint (Size e) \<le> sint (currentSize c)"
proof -
  have "sint (Size e) \<le> sum_list (map (\<lambda>e. sint (Size e)) (orderedItems c))"
    using e assms(2) by (intro member_le_sum_list) (auto simp: sizesNonNegative_member)
  with assms(1) show ?thesis by (simp add: exactTotal_def)
qed

lemma exactTotal_empty: "exactTotal c \<Longrightarrow> orderedItems c = [] \<Longrightarrow> currentSize c = 0"
  by (simp add: exactTotal_def signed_eq_0_iff)

lemma exactTotal_evictElement:
  assumes t: "exactTotal c" and n: "sizesNonNegative c" and e: "e \<in> set (orderedItems c)"
  shows "exactTotal (evictElement c e)"
proof -
  have "sint (currentSize c - Size e) = sint (currentSize c) - sint (Size e)"
    using t n e by (intro sint_sub_exact exactTotal_nonneg sizesNonNegative_member)
  moreover have "sum_list (map (\<lambda>e. sint (Size e)) (orderedItems c))
    = sint (Size e) + sum_list (map (\<lambda>e. sint (Size e)) (remove1 e (orderedItems c)))"
    using e by (rule sum_list_map_remove1)
  ultimately show ?thesis using t by (simp add: exactTotal_def)
qed

lemma sizesNonNegative_evictElement:
  "sizesNonNegative c \<Longrightarrow> sizesNonNegative (evictElement c e)"
  by (auto simp: sizesNonNegative_def list_all_iff dest: notin_set_remove1)

lemma withinCapacity_evictElement:
  assumes t: "exactTotal c" and n: "sizesNonNegative c" and w: "withinCapacity c"
    and e: "e \<in> set (orderedItems c)"
  shows "withinCapacity (evictElement c e)"
proof -
  have "sint (currentSize c - Size e) = sint (currentSize c) - sint (Size e)"
    using t n e by (intro sint_sub_exact exactTotal_nonneg sizesNonNegative_member)
  moreover have "0 \<le> sint (Size e)" using n e by (rule sizesNonNegative_member)
  moreover from w e have "sint (currentSize c) \<le> sint (maxSize c)"
    by (auto simp: withinCapacity_def word_sle_eq)
  ultimately show ?thesis by (simp add: withinCapacity_def word_sle_eq)
qed

lemma withinCapacity_evictAsNeeded: "withinCapacity (evictAsNeeded c)"
  using evictAsNeeded_exit [of c] by (auto simp: withinCapacity_def signed.not_less)

lemma withinCapacity_putItem: "withinCapacity (putItem c key element)"
  by (simp add: putItem_def Let_def withinCapacity_evictAsNeeded)

lemma model_evictAsNeeded:
  "consistent c \<Longrightarrow> exactTotal c \<Longrightarrow> sizesNonNegative c \<Longrightarrow>
   exactTotal (evictAsNeeded c) \<and> sizesNonNegative (evictAsNeeded c)"
proof (induction c rule: evictAsNeeded.induct)
  case (1 c)
  show ?case
  proof (cases "maxSize c <s currentSize c \<and> orderedItems c \<noteq> []")
    case True
    let ?c1 = "evictElement c (last (orderedItems c))"
    from True have "last (orderedItems c) \<in> set (orderedItems c)" by simp
    with "1.prems" have "consistent ?c1" "exactTotal ?c1" "sizesNonNegative ?c1"
      by (simp_all add: consistent_evictElement exactTotal_evictElement
          sizesNonNegative_evictElement)
    with "1.IH" True show ?thesis by (simp add: evictAsNeeded_step)
  next
    case False
    with "1.prems" show ?thesis by (simp add: evictAsNeeded_stop)
  qed
qed

lemma model_evictIfLoop:
  "consistent c \<Longrightarrow> exactTotal c \<Longrightarrow> sizesNonNegative c \<Longrightarrow> withinCapacity c \<Longrightarrow>
   withinCapacity (evictIfLoop c predicate order)"
proof (induction order arbitrary: c)
  case Nil
  then show ?case by simp
next
  case (Cons key keys)
  show ?case
  proof (cases "items c key")
    case None
    with Cons show ?thesis by simp
  next
    case (Some v)
    with Cons.prems have v: "v \<in> set (orderedItems c)" by (simp add: consistent_lookup)
    with Cons.prems have "consistent (evictElement c v)" "exactTotal (evictElement c v)"
      "sizesNonNegative (evictElement c v)" "withinCapacity (evictElement c v)"
      by (simp_all add: consistent_evictElement exactTotal_evictElement
          sizesNonNegative_evictElement withinCapacity_evictElement)
    with Some Cons show ?thesis by simp
  qed
qed

lemma maxSize_evictAsNeeded [simp]: "maxSize (evictAsNeeded c) = maxSize c"
proof (induction c rule: evictAsNeeded.induct)
  case (1 c)
  then show ?case
    by (cases "maxSize c <s currentSize c \<and> orderedItems c \<noteq> []")
      (simp_all add: evictAsNeeded_step evictAsNeeded_stop)
qed

lemma withinCapacity_MakeRoom:
  assumes m: "0 <s maxSize c" and a: "0 \<le>s amount"
  shows "withinCapacity (MakeRoom c amount)"
proof -
  let ?c1 = "c\<lparr>maxSize := maxSize c - amount\<rparr>"
  let ?c2 = "evictAsNeeded ?c1"
  have w: "withinCapacity ?c2" by (rule withinCapacity_evictAsNeeded)
  have "sint (maxSize c - amount) = sint (maxSize c) - sint amount"
    using m a by (intro sint_sub_exact) (simp_all add: word_sle_eq word_sless_alt)
  with a have "sint (maxSize c - amount) \<le> sint (maxSize c)" by (simp add: word_sle_eq)
  with w show ?thesis
    by (auto simp: MakeRoom_def Let_def withinCapacity_def word_sle_eq)
qed

text \<open>
  Claim C3. On a state that satisfies the invariants of the data model (index and list
  agree, sizes are non-negative, the occupied size is their sum as an integer, the
  capacity is positive and respected), each of \<^verbatim>\<open>Put\<close>, \<^verbatim>\<open>Get\<close>, \<^verbatim>\<open>Replace\<close>, \<^verbatim>\<open>Evict\<close>, \<^verbatim>\<open>EvictIf\<close> and
  \<^verbatim>\<open>MakeRoom\<close> of a non-negative amount leaves a state with
  \<open>currentSize \<le> maxSize\<close>, or with an empty recency list.
\<close>

theorem capacity_bound:
  assumes w: "wellFormed c" and a: "0 \<le>s amount"
  shows "withinCapacity (snd (Put c key element)) \<and>
    withinCapacity (snd (Get c key)) \<and>
    withinCapacity (snd (Replace c key element)) \<and>
    withinCapacity (snd (Evict c key)) \<and>
    withinCapacity (snd (EvictIf c predicate order)) \<and>
    withinCapacity (MakeRoom c amount)"
proof -
  from w have c: "consistent c" and t: "exactTotal c" and n: "sizesNonNegative c"
    and m: "0 <s maxSize c" and b: "withinCapacity c"
    by (simp_all add: wellFormed_def)
  have "withinCapacity (snd (Put c key element))"
    using b by (simp add: Put_def withinCapacity_putItem split: option.splits)
  moreover have "withinCapacity (snd (Get c key))"
  proof (cases "items c key")
    case None
    with b show ?thesis
      by (simp add: Get_def produceItem_def withinCapacity_putItem split: option.splits)
  next
    case (Some found)
    with c have "found \<in> set (orderedItems c)" by (simp add: consistent_lookup)
    with b have "currentSize c \<le>s maxSize c" by (auto simp: withinCapacity_def)
    with Some show ?thesis by (simp add: Get_def withinCapacity_def)
  qed
  moreover have "withinCapacity (snd (Replace c key element))"
    by (simp add: Replace_def withinCapacity_putItem)
  moreover have "withinCapacity (snd (Evict c key))"
  proof (cases "items c key")
    case None
    with b show ?thesis by (simp add: Evict_def)
  next
    case (Some found)
    with c have "found \<in> set (orderedItems c)" by (simp add: consistent_lookup)
    with t n b Some show ?thesis by (simp add: Evict_def withinCapacity_evictElement)
  qed
  moreover have "withinCapacity (snd (EvictIf c predicate order))"
    using c t n b by (simp add: EvictIf_def model_evictIfLoop)
  moreover have "withinCapacity (MakeRoom c amount)"
    using m a by (rule withinCapacity_MakeRoom)
  ultimately show ?thesis by simp
qed

lemma wellFormed_twice: "wellFormed twice"
  by (simp add: twice_def wellFormed_def consistent_def exactTotal_def sizesNonNegative_def
      withinCapacity_def entry_def word_sle_eq word_sless_alt scenario_defs)

theorem capacity_bound_witness:
  "wellFormed twice \<and> 0 \<le>s (100 :: gint) \<and>
   withinCapacity (snd (Put twice ''test3'' (newItem ''test3'' 100))) \<and>
   withinCapacity (snd (Get twice ''test1'')) \<and>
   withinCapacity (snd (Replace twice ''test1'' (newItem ''test3'' 100))) \<and>
   withinCapacity (snd (Evict twice ''test1'')) \<and>
   withinCapacity (snd (EvictIf twice (\<lambda>k. k = ''test2'') [''test1'', ''test2''])) \<and>
   withinCapacity (MakeRoom twice 100) \<and>
   currentSize (snd (Put twice ''test3'' (newItem ''test3'' 100))) = 150 \<and>
   currentSize (snd (Replace twice ''test1'' (newItem ''test3'' 100))) = 150 \<and>
   currentSize (MakeRoom twice 100) = 50 \<and> maxSize (MakeRoom twice 100) = 160"
proof -
  have a: "0 \<le>s (100 :: gint)" by (simp add: word_sle_eq)
  have v: "currentSize (snd (Put twice ''test3'' (newItem ''test3'' 100))) = 150"
    "currentSize (snd (Replace twice ''test1'' (newItem ''test3'' 100))) = 150"
    "currentSize (MakeRoom twice 100) = 50" "maxSize (MakeRoom twice 100) = 160"
    by (simp_all add: twice_def scenario_defs)
  from capacity_bound [OF wellFormed_twice a, where key = "''test3''"
      and element = "newItem ''test3'' 100"]
    capacity_bound [OF wellFormed_twice a, where key = "''test1''"
      and element = "newItem ''test3'' 100" and predicate = "\<lambda>k. k = ''test2''"
      and order = "[''test1'', ''test2'']"]
  show ?thesis using wellFormed_twice a v by simp
qed

subsection \<open>Making room\<close>

lemma evictN_sel [simp]:
  "maxSize (evictN c n) = maxSize c"
  "currentSize (evictN c n) = currentSize c - sum_list (map Size (drop n (orderedItems c)))"
  "orderedItems (evictN c n) = take n (orderedItems c)"
  "items (evictN c n) =
     (\<lambda>k. if k \<in> elementKey ` set (drop n (orderedItems c)) then None else items c k)"
  "producer (evictN c n) = producer c"
  "onevict (evictN c n) = onevict c"
  "evicted (evictN c n) =
     evicted c @ (if onevict c then map entry (rev (drop n (orderedItems c))) else [])"
  by (simp_all add: evictN_def)

lemma exactTotal_maxSize [simp]: "exactTotal (c\<lparr>maxSize := m\<rparr>) = exactTotal c"
  by (simp add: exactTotal_def)

lemma sizesNonNegative_maxSize [simp]:
  "sizesNonNegative (c\<lparr>maxSize := m\<rparr>) = sizesNonNegative c"
  by (simp add: sizesNonNegative_def)






subsection \<open>An item larger than the cache\<close>

lemma consistent_insert:
  assumes c: "consistent c" and k: "items c key = None"
  shows "consistent (c\<lparr>currentSize := s,
      orderedItems := element\<lparr>elementKey := key\<rparr> # orderedItems c,
      items := (items c)(key \<mapsto> element\<lparr>elementKey := key\<rparr>)\<rparr>)"
proof -
  from c k have "key \<notin> elementKey ` set (orderedItems c)" by (simp add: consistent_absent)
  with c show ?thesis by (simp add: consistent_def entry_def)
qed

lemma oversized_putItem:
  assumes w: "wellFormed c" and k: "items c key = None"
    and o: "maxSize c <s Size element"
    and f: "sint (currentSize c + Size element) = sint (currentSize c) + sint (Size element)"
  shows "putItem c key element =
    c\<lparr>currentSize := 0, orderedItems := [], items := Map.empty,
      evicted := evicted c @
        (if onevict c then map entry (rev (element\<lparr>elementKey := key\<rparr> # orderedItems c))
         else [])\<rparr>"
proof -
  let ?s = "element\<lparr>elementKey := key\<rparr>"
  let ?ci = "c\<lparr>currentSize := currentSize c + Size element,
      orderedItems := ?s # orderedItems c, items := (items c)(key \<mapsto> ?s)\<rparr>"
  let ?c2 = "evictAsNeeded ?ci"
  from w have c: "consistent c" and t: "exactTotal c" and n: "sizesNonNegative c"
    and m: "0 <s maxSize c"
    by (simp_all add: wellFormed_def)
  have ci: "consistent ?ci" using c k by (rule consistent_insert)
  have ti: "exactTotal ?ci" using t f by (simp add: exactTotal_def)
  from m o have "0 \<le> sint (Size element)" by (simp add: word_sless_alt)
  with n have ni: "sizesNonNegative ?ci" by (simp add: sizesNonNegative_def word_sle_eq)
  from ci ti ni have t2: "exactTotal ?c2" and n2: "sizesNonNegative ?c2"
    using model_evictAsNeeded [of ?ci] by simp_all
  from ci have "distinct (orderedItems ?ci)" by (rule consistent_distinct)
  then obtain j where e: "?c2 = evictN ?ci j" using evictAsNeeded_evictN by blast
  have "j = 0"
  proof (rule ccontr)
    assume "j \<noteq> 0"
    then obtain i where "j = Suc i" by (cases j) auto
    with e have s: "?s \<in> set (orderedItems ?c2)" by simp
    with t2 n2 have "sint (Size ?s) \<le> sint (currentSize ?c2)" by (rule exactTotal_member_le)
    moreover have "withinCapacity ?c2" by (rule withinCapacity_evictAsNeeded)
    with s have "sint (currentSize ?c2) \<le> sint (maxSize c)"
      by (auto simp: withinCapacity_def word_sle_eq)
    ultimately show False using o by (simp add: word_sless_alt)
  qed
  with e have e0: "?c2 = evictN ?ci 0" by simp
  then have "orderedItems ?c2 = []" by simp
  with t2 have z: "currentSize ?c2 = 0" by (rule exactTotal_empty)
  have i: "items (evictN ?ci 0) = Map.empty"
    using c by (auto simp: fun_eq_iff consistent_absent)
  have "?c2 = c\<lparr>currentSize := 0, orderedItems := [], items := Map.empty,
      evicted := evicted c @ (if onevict c then map entry (rev (?s # orderedItems c)) else [])\<rparr>"
    using z i unfolding e0 by (intro LRUCache.equality) simp_all
  then show ?thesis by (simp add: putItem_def Let_def)
qed

text \<open>
  Claim C4, as the code has it. On a state that satisfies the invariants, inserting under
  an absent key an item whose size exceeds \<open>maxSize\<close> (by \<^verbatim>\<open>Put\<close>, or by \<^verbatim>\<open>Get\<close> through
  the producer), where adding its size to \<open>currentSize\<close> does not wrap around, evicts
  every item the cache held, least recently used first, and then the new item:
  \<^verbatim>\<open>onevict\<close> is called for each, last for the new item, the key is not present
  afterwards, the cache is empty and \<open>currentSize\<close> is 0. So \<open>currentSize\<close> is back
  at its prior value only when that value was 0.
\<close>

theorem oversized_item:
  assumes w: "wellFormed c" and k: "items c key = None"
    and o: "maxSize c <s Size element"
    and f: "sint (currentSize c + Size element) = sint (currentSize c) + sint (Size element)"
  shows "fst (Put c key element) = None \<and>
    snd (Put c key element) =
      c\<lparr>currentSize := 0, orderedItems := [], items := Map.empty,
        evicted := evicted c @
          (if onevict c then map entry (rev (element\<lparr>elementKey := key\<rparr> # orderedItems c))
           else [])\<rparr> \<and>
    \<not> Has (snd (Put c key element)) key \<and>
    currentSize (snd (Put c key element)) = 0 \<and>
    (currentSize (snd (Put c key element)) = currentSize c \<longleftrightarrow> currentSize c = 0) \<and>
    (\<forall>p. producer c = Some p \<and> p key = Some element \<longrightarrow>
       Get c key = (Some (element\<lparr>elementKey := key\<rparr>), snd (Put c key element)))"
  using k oversized_putItem [OF w k o f]
  by (auto simp: Put_def Get_def produceItem_def Has_def)

theorem oversized_item_witness:
  "wellFormed feeding \<and> items feeding ''big'' = None \<and>
   maxSize feeding <s Size (newItem ''big'' 200) \<and>
   sint (currentSize feeding + Size (newItem ''big'' 200))
     = sint (currentSize feeding) + sint (Size (newItem ''big'' 200)) \<and>
   fst (Put feeding ''big'' (newItem ''big'' 200)) = None \<and>
   \<not> Has (snd (Put feeding ''big'' (newItem ''big'' 200))) ''big'' \<and>
   currentSize (snd (Put feeding ''big'' (newItem ''big'' 200))) = 0 \<and>
   orderedItems (snd (Put feeding ''big'' (newItem ''big'' 200))) = [] \<and>
   map fst (evicted (snd (Put feeding ''big'' (newItem ''big'' 200)))) = [''test1'', ''big''] \<and>
   map_option Value (fst (Get feeding ''big'')) = Some ''big'' \<and>
   snd (Get feeding ''big'') = snd (Put feeding ''big'' (newItem ''big'' 200))"
proof -
  have w: "wellFormed feeding"
    by (simp add: feeding_def single_def wellFormed_def consistent_def exactTotal_def
        sizesNonNegative_def withinCapacity_def entry_def word_sle_eq word_sless_alt
        scenario_defs)
  have k: "items feeding ''big'' = None"
    and o: "maxSize feeding <s Size (newItem ''big'' 200)"
    and f: "sint (currentSize feeding + Size (newItem ''big'' 200))
      = sint (currentSize feeding) + sint (Size (newItem ''big'' 200))"
    by (simp_all add: feeding_def single_def scenario_defs)
  from oversized_item [OF w k o f]
  have 1: "fst (Put feeding ''big'' (newItem ''big'' 200)) = None"
    and 2: "\<not> Has (snd (Put feeding ''big'' (newItem ''big'' 200))) ''big''"
    and 3: "currentSize (snd (Put feeding ''big'' (newItem ''big'' 200))) = 0"
    by blast+
  have 4: "orderedItems (snd (Put feeding ''big'' (newItem ''big'' 200))) = []"
    "map fst (evicted (snd (Put feeding ''big'' (newItem ''big'' 200)))) = [''test1'', ''big'']"
    "map_option Value (fst (Get feeding ''big'')) = Some ''big''"
    "snd (Get feeding ''big'') = snd (Put feeding ''big'' (newItem ''big'' 200))"
    by (simp_all add: feeding_def single_def scenario_defs)
  from w k o f 1 2 3 4 show ?thesis by (intro conjI)
qed

text \<open>
  Claim C4, as it is stated, fails on its last part: after \<^verbatim>\<open>test1\<close> of size 50 at
  capacity 128, \<^verbatim>\<open>Put\<close> of an item of size 200 evicts \<^verbatim>\<open>test1\<close> as well, and
  \<open>currentSize\<close> ends at 0, not at the 50 it had before.
\<close>

theorem oversized_item_counterexample:
  "New 128 None True = Inr (emptyCache 128) \<and>
   single = snd (Put (emptyCache 128) ''test1'' (newItem ''test1'' 50)) \<and>
   wellFormed single \<and> \<not> Has single ''big'' \<and>
   maxSize single <s Size (newItem ''big'' 200) \<and>
   currentSize single = 50 \<and>
   currentSize (snd (Put single ''big'' (newItem ''big'' 200))) = 0 \<and>
   currentSize (snd (Put single ''big'' (newItem ''big'' 200))) \<noteq> currentSize single \<and>
   map fst (evicted (snd (Put single ''big'' (newItem ''big'' 200)))) = [''test1'', ''big'']"
  by (simp add: single_def wellFormed_def consistent_def exactTotal_def
      sizesNonNegative_def withinCapacity_def entry_def word_sle_eq word_sless_alt
      New_def scenario_defs)

subsection \<open>Recency order\<close>

lemma evictAsNeeded_run:
  assumes c: "consistent c"
  shows "\<exists>n\<le>length (orderedItems c).
    orderedItems (evictAsNeeded c) = take n (orderedItems c) \<and>
    items (evictAsNeeded c) =
      (\<lambda>k. if k \<in> elementKey ` set (drop n (orderedItems c)) then None else items c k) \<and>
    evicted (evictAsNeeded c) =
      evicted c @ (if onevict c then map entry (rev (drop n (orderedItems c))) else []) \<and>
    currentSize (evictAsNeeded c) =
      currentSize c - sum_list (map Size (drop n (orderedItems c))) \<and>
    (\<forall>m. n < m \<and> m \<le> length (orderedItems c) \<longrightarrow>
       maxSize c <s currentSize c - sum_list (map Size (drop m (orderedItems c)))) \<and>
    (n = 0 \<or> currentSize (evictAsNeeded c) \<le>s maxSize c)"
proof -
  from c have "distinct (orderedItems c)" by (rule consistent_distinct)
  then obtain n where n: "n \<le> length (orderedItems c)" and e: "evictAsNeeded c = evictN c n"
    and l: "\<forall>m. n < m \<and> m \<le> length (orderedItems c) \<longrightarrow> maxSize c <s currentSize (evictN c m)"
    using evictAsNeeded_least by blast
  from evictAsNeeded_exit [of c] e n
  have "n = 0 \<or> currentSize (evictAsNeeded c) \<le>s maxSize c"
    by (auto simp: signed.not_less)
  with n e l show ?thesis by (intro exI [of _ n]) simp
qed

text \<open>
  Claim C2. \<^verbatim>\<open>Get\<close> of a present key returns its item and moves it to the front of the
  recency list, the other items keeping their order. The eviction loop, alone and at the
  end of a \<^verbatim>\<open>Put\<close>, removes a run of items from the back of the list and keeps the front,
  calling \<^verbatim>\<open>onevict\<close> from the back on; it goes on only while the occupied size is above
  the capacity, and stops within the capacity or with the list empty. At capacity 128,
  after \<^verbatim>\<open>test1\<close> and \<^verbatim>\<open>test2\<close> of size 50, \<^verbatim>\<open>Get(test1)\<close> and then \<^verbatim>\<open>test3\<close> of size
  50, \<^verbatim>\<open>test2\<close> is gone and \<^verbatim>\<open>test1\<close> and \<^verbatim>\<open>test3\<close> are present.
\<close>

theorem recency_order:
  assumes c: "consistent c"
  shows "(\<forall>found. items c key = Some found \<longrightarrow>
       fst (Get c key) = Some found \<and>
       orderedItems (snd (Get c key)) = found # remove1 found (orderedItems c) \<and>
       elementKey (hd (orderedItems (snd (Get c key)))) = key \<and>
       set (orderedItems (snd (Get c key))) = set (orderedItems c) \<and>
       items (snd (Get c key)) = items c \<and>
       currentSize (snd (Get c key)) = currentSize c) \<and>
    (\<exists>n\<le>length (orderedItems c).
       orderedItems (evictAsNeeded c) = take n (orderedItems c) \<and>
       items (evictAsNeeded c) =
         (\<lambda>k. if k \<in> elementKey ` set (drop n (orderedItems c)) then None else items c k) \<and>
       evicted (evictAsNeeded c) =
         evicted c @ (if onevict c then map entry (rev (drop n (orderedItems c))) else []) \<and>
       currentSize (evictAsNeeded c) =
         currentSize c - sum_list (map Size (drop n (orderedItems c))) \<and>
       (\<forall>m. n < m \<and> m \<le> length (orderedItems c) \<longrightarrow>
          maxSize c <s currentSize c - sum_list (map Size (drop m (orderedItems c)))) \<and>
       (n = 0 \<or> currentSize (evictAsNeeded c) \<le>s maxSize c)) \<and>
    (items c key = None \<longrightarrow>
       (\<exists>n\<le>Suc (length (orderedItems c)).
          orderedItems (snd (Put c key element)) =
            take n (element\<lparr>elementKey := key\<rparr> # orderedItems c) \<and>
          evicted (snd (Put c key element)) =
            evicted c @
              (if onevict c
               then map entry (rev (drop n (element\<lparr>elementKey := key\<rparr> # orderedItems c)))
               else []))) \<and>
    New 128 None True = Inr (emptyCache 128) \<and>
    pair = snd (Put (snd (Put (emptyCache 128) ''test1'' (newItem ''test1'' 50)))
             ''test2'' (newItem ''test2'' 50)) \<and>
    promoted = snd (Get pair ''test1'') \<and>
    Has (snd (Put promoted ''test3'' (newItem ''test3'' 50))) ''test1'' \<and>
    \<not> Has (snd (Put promoted ''test3'' (newItem ''test3'' 50))) ''test2'' \<and>
    Has (snd (Put promoted ''test3'' (newItem ''test3'' 50))) ''test3'' \<and>
    map fst (evicted (snd (Put promoted ''test3'' (newItem ''test3'' 50)))) = [''test2'']"
proof -
  have 1: "\<forall>found. items c key = Some found \<longrightarrow>
       fst (Get c key) = Some found \<and>
       orderedItems (snd (Get c key)) = found # remove1 found (orderedItems c) \<and>
       elementKey (hd (orderedItems (snd (Get c key)))) = key \<and>
       set (orderedItems (snd (Get c key))) = set (orderedItems c) \<and>
       items (snd (Get c key)) = items c \<and>
       currentSize (snd (Get c key)) = currentSize c"
  proof (intro allI impI)
    fix found
    assume f: "items c key = Some found"
    with c have m: "found \<in> set (orderedItems c)" and k: "elementKey found = key"
      by (simp_all add: consistent_lookup)
    from c have "distinct (orderedItems c)" by (rule consistent_distinct)
    with m have "set (found # remove1 found (orderedItems c)) = set (orderedItems c)"
      by auto
    with f k show "fst (Get c key) = Some found \<and>
       orderedItems (snd (Get c key)) = found # remove1 found (orderedItems c) \<and>
       elementKey (hd (orderedItems (snd (Get c key)))) = key \<and>
       set (orderedItems (snd (Get c key))) = set (orderedItems c) \<and>
       items (snd (Get c key)) = items c \<and>
       currentSize (snd (Get c key)) = currentSize c"
      by (simp add: Get_def)
  qed
  have 2: "\<exists>n\<le>length (orderedItems c).
       orderedItems (evictAsNeeded c) = take n (orderedItems c) \<and>
       items (evictAsNeeded c) =
         (\<lambda>k. if k \<in> elementKey ` set (drop n (orderedItems c)) then None else items c k) \<and>
       evicted (evictAsNeeded c) =
         evicted c @ (if onevict c then map entry (rev (drop n (orderedItems c))) else []) \<and>
       currentSize (evictAsNeeded c) =
         currentSize c - sum_list (map Size (drop n (orderedItems c))) \<and>
       (\<forall>m. n < m \<and> m \<le> length (orderedItems c) \<longrightarrow>
          maxSize c <s currentSize c - sum_list (map Size (drop m (orderedItems c)))) \<and>
       (n = 0 \<or> currentSize (evictAsNeeded c) \<le>s maxSize c)"
    using c by (rule evictAsNeeded_run)
  have 3: "items c key = None \<longrightarrow>
       (\<exists>n\<le>Suc (length (orderedItems c)).
          orderedItems (snd (Put c key element)) =
            take n (element\<lparr>elementKey := key\<rparr> # orderedItems c) \<and>
          evicted (snd (Put c key element)) =
            evicted c @
              (if onevict c
               then map entry (rev (drop n (element\<lparr>elementKey := key\<rparr> # orderedItems c)))
               else []))"
  proof
    assume k: "items c key = None"
    let ?ci = "c\<lparr>currentSize := currentSize c + Size element,
      orderedItems := element\<lparr>elementKey := key\<rparr> # orderedItems c,
      items := (items c)(key \<mapsto> element\<lparr>elementKey := key\<rparr>)\<rparr>"
    have "consistent ?ci" using c k by (rule consistent_insert)
    from evictAsNeeded_run [OF this] obtain n where
      "n \<le> length (orderedItems ?ci)"
      "orderedItems (evictAsNeeded ?ci) = take n (orderedItems ?ci)"
      "evicted (evictAsNeeded ?ci) =
         evicted ?ci @ (if onevict ?ci then map entry (rev (drop n (orderedItems ?ci))) else [])"
      by blast
    with k show "\<exists>n\<le>Suc (length (orderedItems c)).
          orderedItems (snd (Put c key element)) =
            take n (element\<lparr>elementKey := key\<rparr> # orderedItems c) \<and>
          evicted (snd (Put c key element)) =
            evicted c @
              (if onevict c
               then map entry (rev (drop n (element\<lparr>elementKey := key\<rparr> # orderedItems c)))
               else [])"
      by (intro exI [of _ n]) (simp add: Put_def putItem_def Let_def)
  qed
  have 4: "New 128 None True = Inr (emptyCache 128)"
    by (simp add: New_emptyCache word_sless_alt)
  have 5: "pair = snd (Put (snd (Put (emptyCache 128) ''test1'' (newItem ''test1'' 50)))
             ''test2'' (newItem ''test2'' 50))"
    "promoted = snd (Get pair ''test1'')"
    by (simp_all add: pair_def promoted_def)
  have 6: "Has (snd (Put promoted ''test3'' (newItem ''test3'' 50))) ''test1''"
    "\<not> Has (snd (Put promoted ''test3'' (newItem ''test3'' 50))) ''test2''"
    "Has (snd (Put promoted ''test3'' (newItem ''test3'' 50))) ''test3''"
    "map fst (evicted (snd (Put promoted ''test3'' (newItem ''test3'' 50)))) = [''test2'']"
    by (simp_all add: promoted_def pair_def scenario_defs)
  from 1 2 3 4 5 6 show ?thesis by (intro conjI)
qed

theorem recency_order_witness:
  "consistent pair \<and> map_option Value (items pair ''test1'') = Some ''test1'' \<and>
   map_option Value (fst (Get pair ''test1'')) = Some ''test1'' \<and>
   map elementKey (orderedItems pair) = [''test2'', ''test1''] \<and>
   elementKey (hd (orderedItems promoted)) = ''test1'' \<and>
   map elementKey (orderedItems promoted) = [''test1'', ''test2''] \<and>
   consistent promoted \<and> items promoted ''test3'' = None \<and>
   map elementKey (orderedItems (snd (Put promoted ''test3'' (newItem ''test3'' 50))))
     = [''test3'', ''test1'']"
proof -
  have c: "consistent pair"
    by (simp add: pair_def consistent_def entry_def scenario_defs)
  have p: "consistent promoted"
    by (simp add: promoted_def pair_def consistent_def entry_def scenario_defs fun_eq_iff)
  have i: "items pair ''test1'' = Some \<lparr>Value = ''test1'', Size = 50, elementKey = ''test1''\<rparr>"
    by (simp add: pair_def scenario_defs)
  from recency_order [OF c, of "''test1''"] i
  have 1: "elementKey (hd (orderedItems (snd (Get pair ''test1'')))) = ''test1''"
    and 2: "fst (Get pair ''test1'')
      = Some \<lparr>Value = ''test1'', Size = 50, elementKey = ''test1''\<rparr>"
    by blast+
  have 3: "map elementKey (orderedItems pair) = [''test2'', ''test1'']"
    "map elementKey (orderedItems promoted) = [''test1'', ''test2'']"
    "items promoted ''test3'' = None"
    "map elementKey (orderedItems (snd (Put promoted ''test3'' (newItem ''test3'' 50))))
     = [''test3'', ''test1'']"
    by (simp_all add: promoted_def pair_def scenario_defs)
  from c p i 1 2 3 show ?thesis by (simp add: promoted_def)
qed

subsection \<open>Replacing\<close>

lemma putItem_outcome:
  assumes c: "consistent c" and k: "items c key = None"
  shows "items (putItem c key element) key = Some (element\<lparr>elementKey := key\<rparr>) \<and>
      hd (orderedItems (putItem c key element)) = element\<lparr>elementKey := key\<rparr> \<and>
      orderedItems (putItem c key element) \<noteq> []
    \<or> orderedItems (putItem c key element) = [] \<and>
      items (putItem c key element) = Map.empty \<and>
      evicted (putItem c key element) =
        evicted c @
          (if onevict c then map entry (rev (element\<lparr>elementKey := key\<rparr> # orderedItems c))
           else [])"
proof -
  let ?s = "element\<lparr>elementKey := key\<rparr>"
  let ?ci = "c\<lparr>currentSize := currentSize c + Size element,
      orderedItems := ?s # orderedItems c, items := (items c)(key \<mapsto> ?s)\<rparr>"
  have p: "putItem c key element = evictAsNeeded ?ci" by (simp add: putItem_def Let_def)
  have "consistent ?ci" using c k by (rule consistent_insert)
  then have "distinct (orderedItems ?ci)" by (rule consistent_distinct)
  then obtain n where e: "evictAsNeeded ?ci = evictN ?ci n" using evictAsNeeded_evictN by blast
  from c k have a: "key \<notin> elementKey ` set (orderedItems c)" by (simp add: consistent_absent)
  show ?thesis
  proof (cases n)
    case 0
    have "items (evictN ?ci 0) = Map.empty"
      using c by (auto simp: fun_eq_iff consistent_absent)
    with 0 e p show ?thesis by simp
  next
    case (Suc i)
    have "set (drop i (orderedItems c)) \<subseteq> set (orderedItems c)" by (rule set_drop_subset)
    with a have "key \<notin> elementKey ` set (drop i (orderedItems c))" by auto
    with Suc e p show ?thesis by simp
  qed
qed

lemma putItem_kept:
  assumes c: "consistent c" and a: "accounted c" and k: "items c key = None"
    and f: "Size element \<le>s maxSize c"
  shows "items (putItem c key element) key = Some (element\<lparr>elementKey := key\<rparr>)"
proof -
  let ?s = "element\<lparr>elementKey := key\<rparr>"
  let ?ci = "c\<lparr>currentSize := currentSize c + Size element,
      orderedItems := ?s # orderedItems c, items := (items c)(key \<mapsto> ?s)\<rparr>"
  have p: "putItem c key element = evictAsNeeded ?ci" by (simp add: putItem_def Let_def)
  have "consistent ?ci" using c k by (rule consistent_insert)
  then have "distinct (orderedItems ?ci)" by (rule consistent_distinct)
  then obtain n where e: "evictAsNeeded ?ci = evictN ?ci n"
    and l: "\<forall>m. n < m \<and> m \<le> length (orderedItems ?ci)
      \<longrightarrow> maxSize ?ci <s currentSize (evictN ?ci m)"
    using evictAsNeeded_least by blast
  have "n \<noteq> 0"
  proof
    assume "n = 0"
    with l have "1 \<le> length (orderedItems ?ci) \<longrightarrow> maxSize ?ci <s currentSize (evictN ?ci 1)"
      by (simp del: evictN_sel)
    then have "maxSize ?ci <s currentSize (evictN ?ci 1)" by simp
    with a have "maxSize c <s Size element" by (simp add: accounted_def)
    with f show False by (simp add: signed.not_less [symmetric])
  qed
  then obtain i where n: "n = Suc i" by (cases n) auto
  from c k have "key \<notin> elementKey ` set (orderedItems c)" by (simp add: consistent_absent)
  moreover have "set (drop i (orderedItems c)) \<subseteq> set (orderedItems c)" by (rule set_drop_subset)
  ultimately have "key \<notin> elementKey ` set (drop i (orderedItems c))" by auto
  with n e p show ?thesis by simp
qed

lemma Replace_kept:
  assumes c: "consistent c" and a: "accounted c" and f: "Size element \<le>s maxSize c"
  shows "items (snd (Replace c key element)) key = Some (element\<lparr>elementKey := key\<rparr>)"
proof (cases "items c key")
  case None
  with putItem_kept [OF c a None, of element] f show ?thesis by (simp add: Replace_def)
next
  case (Some old)
  with c have m: "old \<in> set (orderedItems c)" and k: "elementKey old = key"
    by (simp_all add: consistent_lookup)
  from c m have c1: "consistent (evictElement c old)" by (rule consistent_evictElement)
  from a m have a1: "accounted (evictElement c old)" by (rule accounted_evictElement)
  from k have n: "items (evictElement c old) key = None" by simp
  from putItem_kept [OF c1 a1 n, of element] f Some show ?thesis by (simp add: Replace_def)
qed

text \<open>
  Claim C6. \<^verbatim>\<open>Replace\<close> never fails. When the key is present, the state it returns is
  that of inserting the new item into the state left by evicting the present entry, an
  eviction that takes the entry out of index and list and calls \<^verbatim>\<open>onevict\<close> for it; when
  the key is absent, \<^verbatim>\<open>Replace\<close> is \<^verbatim>\<open>Put\<close>. Afterwards the key maps to the new item, at
  the front of the list, unless the eviction loop has emptied the cache, the new item
  last; and the loop keeps the new item whenever its size is within the capacity.
\<close>

theorem Replace_upsert:
  assumes c: "consistent c"
  shows "fst (Replace c key element) = None \<and>
    (\<forall>old. items c key = Some old \<longrightarrow>
       elementKey old = key \<and>
       snd (Replace c key element) = putItem (evictElement c old) key element \<and>
       \<not> Has (evictElement c old) key \<and>
       old \<notin> set (orderedItems (evictElement c old)) \<and>
       currentSize (evictElement c old) = currentSize c - Size old \<and>
       evicted (evictElement c old) = evicted c @ (if onevict c then [(key, old)] else [])) \<and>
    (items c key = None \<longrightarrow> Replace c key element = Put c key element) \<and>
    (items (snd (Replace c key element)) key = Some (element\<lparr>elementKey := key\<rparr>) \<and>
       hd (orderedItems (snd (Replace c key element))) = element\<lparr>elementKey := key\<rparr>
     \<or> orderedItems (snd (Replace c key element)) = [] \<and>
       items (snd (Replace c key element)) = Map.empty \<and>
       (onevict c \<longrightarrow> evicted (snd (Replace c key element)) \<noteq> [] \<and>
          last (evicted (snd (Replace c key element))) = (key, element\<lparr>elementKey := key\<rparr>))) \<and>
    (accounted c \<and> Size element \<le>s maxSize c \<longrightarrow>
       items (snd (Replace c key element)) key = Some (element\<lparr>elementKey := key\<rparr>)) \<and>
    New 100 None True = Inr (emptyCache 100) \<and>
    once = snd (Put (emptyCache 100) ''test1'' (newItem ''test1'' 50)) \<and>
    replaced = snd (Replace once ''test1'' (newItem ''test2'' 50)) \<and>
    map_option Value (fst (Get replaced ''test1'')) = Some ''test2'' \<and>
    map (\<lambda>(k, e). (k, Value e)) (evicted replaced) = [(''test1'', ''test1'')]"
proof -
  let ?s = "element\<lparr>elementKey := key\<rparr>"
  have 1: "fst (Replace c key element) = None" by (simp add: Replace_def Let_def)
  have 2: "\<forall>old. items c key = Some old \<longrightarrow>
       elementKey old = key \<and>
       snd (Replace c key element) = putItem (evictElement c old) key element \<and>
       \<not> Has (evictElement c old) key \<and>
       old \<notin> set (orderedItems (evictElement c old)) \<and>
       currentSize (evictElement c old) = currentSize c - Size old \<and>
       evicted (evictElement c old) = evicted c @ (if onevict c then [(key, old)] else [])"
  proof (intro allI impI)
    fix old
    assume o: "items c key = Some old"
    with c have k: "elementKey old = key" by (simp add: consistent_lookup)
    from c have "distinct (orderedItems c)" by (rule consistent_distinct)
    then have "old \<notin> set (remove1 old (orderedItems c))" by simp
    with o k show "elementKey old = key \<and>
       snd (Replace c key element) = putItem (evictElement c old) key element \<and>
       \<not> Has (evictElement c old) key \<and>
       old \<notin> set (orderedItems (evictElement c old)) \<and>
       currentSize (evictElement c old) = currentSize c - Size old \<and>
       evicted (evictElement c old) = evicted c @ (if onevict c then [(key, old)] else [])"
      by (simp add: Replace_def Has_def entry_def)
  qed
  have 3: "items c key = None \<longrightarrow> Replace c key element = Put c key element"
    by (simp add: Replace_def Put_def)
  have 4: "items (snd (Replace c key element)) key = Some ?s \<and>
       hd (orderedItems (snd (Replace c key element))) = ?s
     \<or> orderedItems (snd (Replace c key element)) = [] \<and>
       items (snd (Replace c key element)) = Map.empty \<and>
       (onevict c \<longrightarrow> evicted (snd (Replace c key element)) \<noteq> [] \<and>
          last (evicted (snd (Replace c key element))) = (key, ?s))"
  proof (cases "items c key")
    case None
    from putItem_outcome [OF c None, of element] None show ?thesis
      by (auto simp: Replace_def entry_def)
  next
    case (Some old)
    with c have m: "old \<in> set (orderedItems c)" and k: "elementKey old = key"
      by (simp_all add: consistent_lookup)
    from c m have c1: "consistent (evictElement c old)" by (rule consistent_evictElement)
    from k have a: "items (evictElement c old) key = None" by simp
    from putItem_outcome [OF c1 a, of element] Some show ?thesis
      by (auto simp: Replace_def entry_def)
  qed
  have 8: "accounted c \<and> Size element \<le>s maxSize c \<longrightarrow>
       items (snd (Replace c key element)) key = Some ?s"
    using c by (simp add: Replace_kept)
  have 5: "New 100 None True = Inr (emptyCache 100)"
    by (simp add: New_emptyCache word_sless_alt)
  have 6: "once = snd (Put (emptyCache 100) ''test1'' (newItem ''test1'' 50))"
    "replaced = snd (Replace once ''test1'' (newItem ''test2'' 50))"
    by (simp_all add: once_def replaced_def)
  have 7: "map_option Value (fst (Get replaced ''test1'')) = Some ''test2''"
    "map (\<lambda>(k, e). (k, Value e)) (evicted replaced) = [(''test1'', ''test1'')]"
    by (simp_all add: replaced_def once_def scenario_defs)
  from 1 2 3 4 8 5 6 7 show ?thesis by (intro conjI)
qed

theorem Replace_upsert_witness:
  "consistent once \<and>
   items once ''test1'' = Some \<lparr>Value = ''test1'', Size = 50, elementKey = ''test1''\<rparr> \<and>
   replaced = putItem (evictElement once \<lparr>Value = ''test1'', Size = 50, elementKey = ''test1''\<rparr>)
     ''test1'' (newItem ''test2'' 50) \<and>
   \<not> Has (evictElement once \<lparr>Value = ''test1'', Size = 50, elementKey = ''test1''\<rparr>) ''test1'' \<and>
   accounted once \<and> Size (newItem ''test2'' 50) \<le>s maxSize once \<and>
   items replaced ''test1'' = Some ((newItem ''test2'' 50)\<lparr>elementKey := ''test1''\<rparr>) \<and>
   currentSize replaced = 50 \<and>
   consistent (emptyCache 100) \<and> items (emptyCache 100) ''test1'' = None \<and>
   Replace (emptyCache 100) ''test1'' (newItem ''test1'' 50)
     = Put (emptyCache 100) ''test1'' (newItem ''test1'' 50)"
proof -
  have c: "consistent once" and e: "consistent (emptyCache 100)"
    by (simp_all add: once_def consistent_def entry_def scenario_defs)
  have i: "items once ''test1'' = Some \<lparr>Value = ''test1'', Size = 50, elementKey = ''test1''\<rparr>"
    and n: "items (emptyCache 100) ''test1'' = None"
    and a: "accounted once" and f: "Size (newItem ''test2'' 50) \<le>s maxSize once"
    by (simp_all add: once_def accounted_def scenario_defs)
  from Replace_upsert [OF c, of "''test1''" "newItem ''test2'' 50"] i
  have 1: "snd (Replace once ''test1'' (newItem ''test2'' 50))
      = putItem (evictElement once \<lparr>Value = ''test1'', Size = 50, elementKey = ''test1''\<rparr>)
          ''test1'' (newItem ''test2'' 50)"
    and 2: "\<not> Has (evictElement once \<lparr>Value = ''test1'', Size = 50, elementKey = ''test1''\<rparr>)
      ''test1''"
    by blast+
  from Replace_upsert [OF c, of "''test1''" "newItem ''test2'' 50"] a f
  have 5: "items (snd (Replace once ''test1'' (newItem ''test2'' 50))) ''test1''
      = Some ((newItem ''test2'' 50)\<lparr>elementKey := ''test1''\<rparr>)"
    by blast
  from Replace_upsert [OF e, of "''test1''" "newItem ''test1'' 50"] n
  have 3: "Replace (emptyCache 100) ''test1'' (newItem ''test1'' 50)
     = Put (emptyCache 100) ''test1'' (newItem ''test1'' 50)" by blast
  have 4: "currentSize replaced = 50"
    by (simp add: replaced_def once_def scenario_defs)
  from c e i n a f 1 2 3 4 5 show ?thesis by (simp add: replaced_def)
qed

end
